theory Spec2Isabelle
  imports Main "HOL-Library.AList" "HOL-Library.Sublist" "HOL-Library.Multiset"
begin

text \<open>
  The synchronous HTTP transport of \<open>src/server/rest.ts\<close> (\<open>handlePostRequest\<close>, \<open>send\<close>
  and the registry \<open>_pendingRequests\<close> between them) and the two versions of
  \<open>getParamValue\<close>. An HTTP call is followed from the arrival of its POST over the
  responses that \<open>send\<close> collects for it to the continuation that writes the HTTP
  response; what the runtime does in between (promises, the timer, the order of events)
  is part of the state.
\<close>

section \<open>JSON-RPC messages\<close>

text \<open>
  A decoded JSON-RPC message is an object whose keys \<open>id\<close>, \<open>method\<close>, \<open>result\<close> and
  \<open>error\<close> may each be present or absent; the transport only ever tests key presence
  (\<open>"id" in msg\<close>) and reads \<open>msg.id\<close>. A present key is \<open>Some\<close>, an absent one \<open>None\<close>.
  Payloads (\<open>params\<close>, \<open>result\<close>, \<open>error\<close>) are JSON values the transport never inspects.
\<close>

datatype json = JNull | JBool bool | JNum int | JStr string
  | JArr "json list" | JObj "(string \<times> json) list"

text \<open>An identifier is a string or an (integral) number, as the message schema admits.\<close>

datatype ident = IdStr string | IdNum int

record message =
  msg_id :: "ident option"
  msg_method :: "string option"
  params :: "json option"
  result :: "json option"
  error :: "json option"

text \<open>
  \<open>String(msg.id)\<close>: a string is itself, a number is its decimal numeral (the rendering
  of JavaScript for integral numbers of magnitude below \<open>10^21\<close>).
\<close>

definition digit_char :: "nat \<Rightarrow> char" where
  "digit_char d = char_of (48 + d)"

fun digits :: "nat \<Rightarrow> string" where
  "digits n = (if n < 10 then [digit_char n] else digits (n div 10) @ [digit_char (n mod 10)])"

definition js_String :: "ident \<Rightarrow> string" where
  "js_String i = (case i of
       IdStr s \<Rightarrow> s
     | IdNum n \<Rightarrow> (if n < 0 then CHR ''-'' # digits (nat (- n)) else digits (nat n)))"

section \<open>The state of the transport and of the runtime around it\<close>

text \<open>
  Every HTTP call is one invocation of \<open>handlePostRequest\<close>; invocations are numbered, and
  the number of an invocation is also the address of the two objects it allocates: the
  \<open>responseMessages\<close> array of its registry entry and the promise behind the entry's
  \<open>resolve\<close> callback. An entry of \<open>_pendingRequests\<close> therefore holds two addresses and
  the list of expected identifiers.
\<close>

record pendingRequest =
  resolve :: nat
  responseMessages :: nat
  requestIds :: "string list"

text \<open>
  The outcome of \<open>Promise.race([responsePromise, timeoutPromise])\<close> of a call. The
  response promise is only ever observed through this race, and the first of the two
  promises to settle decides it: \<open>Collected a\<close> when \<open>resolve\<close> was called first (the
  value is the reference to the array at address \<open>a\<close>), \<open>TimedOut\<close> when the timer fired
  first (the value is a fresh empty array).
\<close>

datatype outcome = Unsettled | Collected nat | TimedOut

text \<open>What is written to the HTTP response, before \<open>JSON.stringify\<close>.\<close>

datatype body = NoBody | Single message | Batch "message list"
  | ErrorEnvelope int string "string option"

text \<open>
  The observable effects, in program order; the first argument names the HTTP call.
  \<open>Rejects\<close> is the rejection of the promise that \<open>handlePostRequest\<close> returned, with the
  code of the error.
\<close>

datatype effect =
    WriteHead nat nat "(string \<times> string) list"
  | End nat body
  | OnMessage nat message
  | OnError nat string
  | Rejects nat string

text \<open>
  \<open>pendingRequests\<close>, \<open>onmessage\<close> and \<open>onerror\<close> are the fields of the transport (the
  JavaScript \<open>Map\<close> keeps insertion order, so it is an association list). The downstream
  handler is a collaborator: invoked on a message, in its own state, it hands back the
  messages it passes to \<open>send\<close> before it returns or throws, the exception if it throws
  (\<open>None\<close> when it returns normally), and its next state. What it sends later arrives as
  separate \<open>send\<close> calls. \<open>arrays\<close> and \<open>race\<close> are the store of the arrays and promises,
  \<open>awaiting\<close> holds the suspended calls with the \<open>requestBatchId\<close> of their continuation,
  \<open>timers\<close> the armed timers with their delay in milliseconds. \<open>sent\<close> is the list of the
  messages that the downstream side has handed to \<open>send\<close> so far, in order, noted where
  it hands them over.
\<close>

record 'h state =
  pendingRequests :: "(string \<times> pendingRequest) list"
  onmessage :: "(message \<Rightarrow> 'h \<Rightarrow> message list \<times> string option \<times> 'h) option"
  onerror :: bool
  handler :: 'h
  arrays :: "nat \<Rightarrow> message list"
  race :: "nat \<Rightarrow> outcome"
  awaiting :: "nat \<Rightarrow> string option"
  timers :: "nat \<Rightarrow> nat option"
  trace :: "effect list"
  sent :: "message list"

section \<open>send\<close>

text \<open>
  \<open>pendingRequest.resolve(pendingRequest.responseMessages)\<close>: the first call settles the
  promise, a later one does nothing; after the timer has won the race it changes nothing
  the call can observe.
\<close>

definition call_resolve :: "nat \<Rightarrow> nat \<Rightarrow> 'h state \<Rightarrow> 'h state" where
  "call_resolve p a st =
     (if race st p = Unsettled then st\<lparr>race := (race st)(p := Collected a)\<rparr> else st)"

text \<open>The loop of \<open>send\<close> over the entries of the map, in insertion order, with its \<open>break\<close>.\<close>

fun send_loop :: "(string \<times> pendingRequest) list \<Rightarrow> string \<Rightarrow> message \<Rightarrow> 'h state \<Rightarrow> 'h state" where
  "send_loop [] messageId message st = st"
| "send_loop ((batchId, pr) # entries) messageId message st =
     (if messageId \<in> set (requestIds pr) then
        (let a = responseMessages pr;
             st1 = st\<lparr>arrays := (arrays st)(a := arrays st a @ [message])\<rparr>
         in if length (arrays st1 a) = length (requestIds pr)
            then call_resolve (resolve pr) a st1 else st1)
      else send_loop entries messageId message st)"

text \<open>\<open>String(message.id)\<close>; a missing \<open>id\<close> reads as \<open>undefined\<close>.\<close>

definition messageId :: "message \<Rightarrow> string" where
  "messageId message =
     (case msg_id message of None \<Rightarrow> ''undefined'' | Some i \<Rightarrow> js_String i)"

definition send :: "message \<Rightarrow> 'h state \<Rightarrow> 'h state" where
  "send message st =
     (if msg_id message = None \<or> \<not> (result message \<noteq> None \<or> error message \<noteq> None) then st
      else send_loop (pendingRequests st) (messageId message) message st)"

section \<open>handlePostRequest\<close>

record request =
  accept :: "string option"
  content_type :: "string option"
  decoded :: "string + message list"

text \<open>\<open>s.includes(sub)\<close>: \<open>sub\<close> occurs in \<open>s\<close> as a contiguous substring.\<close>

definition includes_str :: "string \<Rightarrow> string \<Rightarrow> bool" where
  "includes_str s sub = list_ex (prefix sub) (suffixes s)"

definition hasRequests :: "message list \<Rightarrow> bool" where
  "hasRequests messages = list_ex (\<lambda>msg. msg_method msg \<noteq> None \<and> msg_id msg \<noteq> None) messages"

definition hasOnlyNotifications :: "message list \<Rightarrow> bool" where
  "hasOnlyNotifications messages =
     list_all (\<lambda>msg. msg_method msg \<noteq> None \<and> \<not> (msg_id msg \<noteq> None)) messages"

text \<open>Lines 233 to 235: the identifiers of the Requests, as strings, in order.\<close>

definition requestIds_of :: "message list \<Rightarrow> string list" where
  "requestIds_of messages =
     map messageId (filter (\<lambda>msg. msg_method msg \<noteq> None \<and> msg_id msg \<noteq> None) messages)"

text \<open>
  \<open>this.onmessage?.(message)\<close>, with what the handler sends before it returns or throws;
  the first component of the result is the exception, if the handler throws, as the
  string that \<open>String(error)\<close> makes of it.
\<close>

definition call_onmessage :: "nat \<Rightarrow> message \<Rightarrow> 'h state \<Rightarrow> string option \<times> 'h state" where
  "call_onmessage c message st =
     (case onmessage st of
        None \<Rightarrow> (None, st)
      | Some f \<Rightarrow>
          (case f message (handler st) of
             (outs, exn, h') \<Rightarrow>
               (exn, fold send outs
                  (st\<lparr>trace := trace st @ [OnMessage c message], handler := h',
                      sent := sent st @ outs\<rparr>))))"

text \<open>The \<open>for\<close> statements at lines 225 to 227 and 247 to 249; an exception ends them.\<close>

fun forward :: "nat \<Rightarrow> message list \<Rightarrow> 'h state \<Rightarrow> string option \<times> 'h state" where
  "forward c [] st = (None, st)"
| "forward c (message # messages) st =
     (case call_onmessage c message st of
        (None, st1) \<Rightarrow> forward c messages st1
      | (Some err, st1) \<Rightarrow> (Some err, st1))"

text \<open>Lines 238 to 244: the new promise, and the entry set in the map by its executor.\<close>

definition register :: "nat \<Rightarrow> string \<Rightarrow> string list \<Rightarrow> 'h state \<Rightarrow> 'h state" where
  "register c requestBatchId ids st =
     st\<lparr>pendingRequests :=
          AList.update requestBatchId
            \<lparr>resolve = c, responseMessages = c, requestIds = ids\<rparr> (pendingRequests st),
        arrays := (arrays st)(c := []),
        race := (race st)(c := Unsettled)\<rparr>"

definition respond_error :: "nat \<Rightarrow> nat \<Rightarrow> int \<Rightarrow> string \<Rightarrow> string option \<Rightarrow> 'h state \<Rightarrow> 'h state" where
  "respond_error c status code msg data st =
     st\<lparr>trace := trace st @ [WriteHead c status [], End c (ErrorEnvelope code msg data)]\<rparr>"

text \<open>
  The \<open>catch\<close> block (lines 274 to 288). \<open>res.writeHead\<close> throws when the head of the
  response has been written already (\<open>ERR_HTTP_HEADERS_SENT\<close>); the block is left at
  once then, and the promise that \<open>handlePostRequest\<close> returned is rejected.
\<close>

definition catch_block :: "nat \<Rightarrow> bool \<Rightarrow> string \<Rightarrow> 'h state \<Rightarrow> 'h state" where
  "catch_block c headWritten err st =
     (if headWritten then st\<lparr>trace := trace st @ [Rejects c ''ERR_HTTP_HEADERS_SENT'']\<rparr>
      else
        (let st1 = respond_error c 400 (- 32700) ''Parse error'' (Some err) st
         in if onerror st1 then st1\<lparr>trace := trace st1 @ [OnError c err]\<rparr> else st1))"

text \<open>
  The invocation \<open>c\<close> of \<open>handlePostRequest\<close> up to its \<open>await\<close>; \<open>requestBatchId\<close> is what
  \<open>randomUUID()\<close> returns. Reading and parsing the body and validating it against the
  message schema is done by libraries; their outcome is the field \<open>decoded\<close> of the
  request, \<open>Inl\<close> the exception that the \<open>catch\<close> block receives. The two guards on the
  headers come first. An exception of the handler while the messages are passed on is caught by
  the same block: after the 202 of a notification-only call the head is written, in a
  request-bearing call it is not, the timer is not armed and the entry stays in the map.
\<close>

definition not_acceptable :: "request \<Rightarrow> bool" where
  "not_acceptable req =
     (case accept req of
        None \<Rightarrow> False
      | Some acceptHeader \<Rightarrow>
          acceptHeader \<noteq> [] \<and> acceptHeader \<noteq> ''*/*''
          \<and> \<not> includes_str acceptHeader ''application/json'')"

definition unsupported_media_type :: "request \<Rightarrow> bool" where
  "unsupported_media_type req =
     (case content_type req of
        None \<Rightarrow> True
      | Some ct \<Rightarrow> ct = [] \<or> \<not> includes_str ct ''application/json'')"

definition handlePostRequest :: "nat \<Rightarrow> string \<Rightarrow> request \<Rightarrow> 'h state \<Rightarrow> 'h state" where
  "handlePostRequest c requestBatchId req st =
     (if not_acceptable req
      then respond_error c 406 (- 32000)
             ''Not Acceptable: Client must accept application/json'' None st
      else if unsupported_media_type req
      then respond_error c 415 (- 32000)
             ''Unsupported Media Type: Content-Type must be application/json'' None st
      else
        (case decoded req of
           Inl err \<Rightarrow> catch_block c False err st
         | Inr messages \<Rightarrow>
             if hasOnlyNotifications messages then
               (case forward c messages
                       (st\<lparr>trace := trace st @ [WriteHead c 202 [], End c NoBody]\<rparr>) of
                  (None, st1) \<Rightarrow> st1
                | (Some err, st1) \<Rightarrow> catch_block c True err st1)
             else if hasRequests messages then
               (case forward c messages
                       (register c requestBatchId (requestIds_of messages) st) of
                  (None, st2) \<Rightarrow>
                    st2\<lparr>timers := (timers st2)(c \<mapsto> 30000),
                        awaiting := (awaiting st2)(c \<mapsto> requestBatchId)\<rparr>
                | (Some err, st2) \<Rightarrow> catch_block c False err st2)
             else st))"

text \<open>The callback of the timer of call \<open>c\<close>: \<open>resolve([])\<close> on the timeout promise.\<close>

definition timeout :: "nat \<Rightarrow> 'h state \<Rightarrow> 'h state" where
  "timeout c st =
     (case timers st c of
        None \<Rightarrow> st
      | Some delay \<Rightarrow>
          st\<lparr>timers := (timers st)(c := None),
             race := (if race st c = Unsettled then (race st)(c := TimedOut) else race st)\<rparr>)"

text \<open>
  The continuation of call \<open>c\<close> after its \<open>await\<close> (lines 260 to 272). It runs once the
  race is settled; \<open>responses\<close> is the array the race was settled with, read now.
\<close>

definition resume :: "nat \<Rightarrow> 'h state \<Rightarrow> 'h state" where
  "resume c st =
     (case awaiting st c of
        None \<Rightarrow> st
      | Some requestBatchId \<Rightarrow>
          (case race st c of
             Unsettled \<Rightarrow> st
           | settled \<Rightarrow>
               (let responses = (case settled of Collected a \<Rightarrow> arrays st a | other \<Rightarrow> []);
                    responseBody = (if length responses = 1 then Single (responses ! 0)
                                    else Batch responses)
                in st\<lparr>pendingRequests := AList.delete requestBatchId (pendingRequests st),
                      awaiting := (awaiting st)(c := None),
                      trace := trace st @
                        [WriteHead c 200 [(''Content-Type'', ''application/json'')],
                         End c responseBody]\<rparr>)))"

section \<open>Runs\<close>

text \<open>
  What happens to a running transport: an HTTP POST arrives, the downstream side calls
  \<open>send\<close>, a timer fires, a suspended call is resumed.
\<close>

datatype event = Post nat string request | Send message | Timeout nat | Resume nat

fun step :: "event \<Rightarrow> 'h state \<Rightarrow> 'h state" where
  "step (Post c requestBatchId req) st = handlePostRequest c requestBatchId req st"
| "step (Send message) st = send message (st\<lparr>sent := sent st @ [message]\<rparr>)"
| "step (Timeout c) st = timeout c st"
| "step (Resume c) st = resume c st"

definition run :: "event list \<Rightarrow> 'h state \<Rightarrow> 'h state" where
  "run evs st = fold step evs st"


text \<open>The events that belong to call \<open>c\<close> itself.\<close>

fun of_call :: "nat \<Rightarrow> event \<Rightarrow> bool" where
  "of_call c (Post c' requestBatchId req) = (c' = c)"
| "of_call c (Send message) = False"
| "of_call c (Timeout c') = (c' = c)"
| "of_call c (Resume c') = (c' = c)"

section \<open>Conditions on states\<close>

text \<open>
  Call \<open>c\<close> is new in a state: no entry of the registry refers to the array or to the
  promise that the call is going to allocate.
\<close>

definition unused :: "nat \<Rightarrow> 'h state \<Rightarrow> bool" where
  "unused c st =
     list_all (\<lambda>entry. resolve (snd entry) \<noteq> c \<and> responseMessages (snd entry) \<noteq> c)
       (pendingRequests st)"

text \<open>
  What holds of a call \<open>c\<close> that waits for \<open>n\<close> responses as long as its timer has not
  fired: an entry that refers to the call's array or promise is an entry of the call,
  and the race is won by the call's array exactly when \<open>n\<close> responses or more are in it,
  and is unsettled otherwise.
\<close>

definition batch_inv :: "nat \<Rightarrow> nat \<Rightarrow> 'h state \<Rightarrow> bool" where
  "batch_inv c n st =
     (list_all (\<lambda>entry.
         (resolve (snd entry) = c \<longrightarrow>
            responseMessages (snd entry) = c \<and> length (requestIds (snd entry)) = n)
         \<and> (responseMessages (snd entry) = c \<longrightarrow>
            resolve (snd entry) = c \<and> length (requestIds (snd entry)) = n))
       (pendingRequests st)
      \<and> race st c = (if n \<le> length (arrays st c) then Collected c else Unsettled))"

text \<open>
  A batch identifier is new in a state: it is no key of the registry, and no suspended
  call holds it.
\<close>

definition new_batch :: "string \<Rightarrow> 'h state \<Rightarrow> bool" where
  "new_batch b st = (b \<notin> fst ` set (pendingRequests st) \<and> b \<notin> ran (awaiting st))"

text \<open>The Responses among some messages whose identifier is one of the given ones.\<close>

definition answers :: "string list \<Rightarrow> message list \<Rightarrow> message list" where
  "answers ids ms =
     filter (\<lambda>m. msg_id m \<noteq> None \<and> (result m \<noteq> None \<or> error m \<noteq> None)
                 \<and> messageId m \<in> set ids) ms"


section \<open>getParamValue\<close>

text \<open>
  A value read from an object: \<open>undefined\<close> or a string. Keys and names are taken not to
  be names of properties that every object inherits (such as \<open>constructor\<close>).
\<close>

datatype jsval = Undefined | Str string

text \<open>\<open>s.split(sep)\<close> for a separator of one character.\<close>

fun split :: "char \<Rightarrow> string \<Rightarrow> string list" where
  "split sep [] = [] # []"
| "split sep (ch # cs) =
     (if ch = sep then [] # split sep cs
      else (case split sep cs of [] \<Rightarrow> [ch] # [] | piece # pieces \<Rightarrow> (ch # piece) # pieces))"

text \<open>
  \<open>getParams\<close>, given \<open>process.argv\<close>: the object \<open>args\<close> as an association list. The
  destructuring \<open>[key, value]\<close> takes the first two pieces; \<open>value\<close> is \<open>undefined\<close> when
  the argument has no \<open>=\<close>.
\<close>

definition getParams :: "string list \<Rightarrow> (string \<times> jsval) list" where
  "getParams argv =
     fold (\<lambda>arg args.
            if prefix ''--'' arg then
              (case split CHR ''='' (drop 2 arg) of
                 [] \<Rightarrow> args
               | [key] \<Rightarrow> AList.update key Undefined args
               | key # val # rest \<Rightarrow> AList.update key (Str val) args)
            else args)
       (drop 2 argv) []"

text \<open>\<open>obj[name]\<close> on \<open>args\<close> and on \<open>process.env\<close> (whose values are strings).\<close>

definition get_arg :: "(string \<times> jsval) list \<Rightarrow> string \<Rightarrow> jsval" where
  "get_arg args name = (case map_of args name of None \<Rightarrow> Undefined | Some v \<Rightarrow> v)"

definition get_env :: "(string \<times> string) list \<Rightarrow> string \<Rightarrow> jsval" where
  "get_env env name = (case map_of env name of None \<Rightarrow> Undefined | Some s \<Rightarrow> Str s)"

text \<open>\<open>a || b\<close>: \<open>undefined\<close> and the empty string are falsy.\<close>

definition truthy :: "jsval \<Rightarrow> bool" where
  "truthy v = (case v of Undefined \<Rightarrow> False | Str s \<Rightarrow> s \<noteq> [])"

definition js_or :: "jsval \<Rightarrow> jsval \<Rightarrow> jsval" where
  "js_or a b = (if truthy a then a else b)"

text \<open>\<open>toUpperCase\<close> and \<open>toLowerCase\<close>, on ASCII letters.\<close>

definition toUpperCase :: "string \<Rightarrow> string" where
  "toUpperCase s =
     map (\<lambda>ch. let n = (of_char ch :: nat) in if 97 \<le> n \<and> n \<le> 122 then char_of (n - 32) else ch) s"

definition toLowerCase :: "string \<Rightarrow> string" where
  "toLowerCase s =
     map (\<lambda>ch. let n = (of_char ch :: nat) in if 65 \<le> n \<and> n \<le> 90 then char_of (n + 32) else ch) s"

text \<open>The chain of \<open>||\<close> both files end with, over an \<open>args\<close> object and the environment.\<close>

definition value_chain :: "(string \<times> jsval) list \<Rightarrow> (string \<times> string) list \<Rightarrow> string \<Rightarrow> jsval" where
  "value_chain args env name =
     js_or (js_or (js_or (js_or (js_or (js_or
        (get_arg args name)
        (get_arg args (toUpperCase name)))
        (get_arg args (toLowerCase name)))
        (get_env env name))
        (get_env env (toUpperCase name)))
        (get_env env (toLowerCase name)))
        (Str [])"

text \<open>
  \<open>getParamValue\<close> of the first file: with no \<open>--\<close> argument on the command line it
  returns the empty string at once.
\<close>

definition getParamValue_000 :: "string list \<Rightarrow> (string \<times> string) list \<Rightarrow> string \<Rightarrow> jsval" where
  "getParamValue_000 argv env name =
     (let args = getParams argv
      in if length (map fst args) = 0 then Str [] else value_chain args env name)"

text \<open>
  \<open>getParamValue\<close> of the second file: with no \<open>--\<close> argument it goes on with an empty
  \<open>args\<close> object.
\<close>

definition getParamValue_001 :: "string list \<Rightarrow> (string \<times> string) list \<Rightarrow> string \<Rightarrow> jsval" where
  "getParamValue_001 argv env name =
     (let args = getParams argv;
          args = (if length (map fst args) = 0 then [] else args)
      in value_chain args env name)"

text \<open>
  The lookup as the specification words it: the first non-empty value among the CLI-style
  argument under the exact-case name, its upper-case form, its lower-case form, then the
  environment variable under the same three forms; the empty string if there is none.
\<close>

definition lookup_spec :: "string list \<Rightarrow> (string \<times> string) list \<Rightarrow> string \<Rightarrow> jsval" where
  "lookup_spec argv env name =
     (case find (\<lambda>v. v \<noteq> Undefined \<and> v \<noteq> Str [])
            [get_arg (getParams argv) name,
             get_arg (getParams argv) (toUpperCase name),
             get_arg (getParams argv) (toLowerCase name),
             get_env env name,
             get_env env (toUpperCase name),
             get_env env (toLowerCase name)] of
        None \<Rightarrow> Str []
      | Some v \<Rightarrow> v)"

section \<open>Concrete messages, requests and states\<close>

definition request_msg :: "ident \<Rightarrow> string \<Rightarrow> message" where
  "request_msg i m =
     \<lparr>msg_id = Some i, msg_method = Some m, params = None, result = None, error = None\<rparr>"

definition notification_msg :: "string \<Rightarrow> message" where
  "notification_msg m =
     \<lparr>msg_id = None, msg_method = Some m, params = None, result = None, error = None\<rparr>"

definition response_msg :: "ident \<Rightarrow> json \<Rightarrow> message" where
  "response_msg i r =
     \<lparr>msg_id = Some i, msg_method = None, params = None, result = Some r, error = None\<rparr>"

definition json_post :: "message list \<Rightarrow> request" where
  "json_post messages =
     \<lparr>accept = Some ''application/json'', content_type = Some ''application/json'',
      decoded = Inr messages\<rparr>"

text \<open>A transport with nothing registered; \<open>onmessage\<close> is the given handler.\<close>

definition fresh ::
  "(message \<Rightarrow> 'h \<Rightarrow> message list \<times> string option \<times> 'h) option \<Rightarrow> 'h \<Rightarrow> 'h state" where
  "fresh f h =
     \<lparr>pendingRequests = [], onmessage = f, onerror = False, handler = h,
      arrays = (\<lambda>a. []), race = (\<lambda>c. Unsettled), awaiting = (\<lambda>c. None),
      timers = (\<lambda>c. None), trace = [], sent = []\<rparr>"

text \<open>A handler that answers every Request at once with the result \<open>{}\<close>.\<close>

definition answer_at_once :: "message \<Rightarrow> unit \<Rightarrow> message list \<times> string option \<times> unit" where
  "answer_at_once msg h =
     (case (msg_id msg, msg_method msg) of
        (Some i, Some m) \<Rightarrow> ([response_msg i (JObj [])], None, h)
      | other \<Rightarrow> ([], None, h))"

text \<open>A handler that only takes note of what it is given and sends nothing by itself.\<close>

definition silent :: "message \<Rightarrow> unit \<Rightarrow> message list \<times> string option \<times> unit" where
  "silent msg h = ([], None, h)"

text \<open>
  A handler that throws on every message, and one that answers every Request at once
  and throws on everything else.
\<close>

definition throws_always :: "message \<Rightarrow> unit \<Rightarrow> message list \<times> string option \<times> unit" where
  "throws_always msg h = ([], Some ''boom'', h)"

definition answers_or_throws :: "message \<Rightarrow> unit \<Rightarrow> message list \<times> string option \<times> unit" where
  "answers_or_throws msg h =
     (case (msg_id msg, msg_method msg) of
        (Some i, Some m) \<Rightarrow> ([response_msg i (JObj [])], None, h)
      | other \<Rightarrow> ([], Some ''boom'', h))"

text \<open>Two Requests with different identifiers, two with the same one, and answers.\<close>

definition two_requests :: "message list" where
  "two_requests = [request_msg (IdStr ''1'') ''a'', request_msg (IdStr ''2'') ''b'']"

definition same_id_twice :: "message list" where
  "same_id_twice = [request_msg (IdStr ''1'') ''a'', request_msg (IdStr ''1'') ''b'']"

definition answer1 :: message where
  "answer1 = response_msg (IdStr ''1'') (JObj [])"

definition answer2 :: message where
  "answer2 = response_msg (IdStr ''2'') (JObj [])"

text \<open>
  A call for two Requests of which one is answered before the timer fires; a call for
  two Requests with one identifier, answered once; a call for two Requests that gets
  the answer to the first one twice; a call for two Requests answered in the other
  order; and two calls in flight that both expect the identifier \<open>1\<close>.
\<close>

definition one_of_two_then_timer :: "unit state" where
  "one_of_two_then_timer =
     run [Post 0 ''batch-0'' (json_post two_requests), Send answer1, Timeout 0]
       (fresh (Some silent) ())"

definition same_id_answered_once :: "unit state" where
  "same_id_answered_once =
     run [Post 0 ''batch-0'' (json_post same_id_twice), Send answer1] (fresh (Some silent) ())"

definition first_answered_twice :: "unit state" where
  "first_answered_twice =
     run [Post 0 ''batch-0'' (json_post two_requests), Send answer1, Send answer1]
       (fresh (Some silent) ())"

definition answered_out_of_order :: "unit state" where
  "answered_out_of_order =
     run [Post 0 ''batch-0'' (json_post two_requests), Send answer2, Send answer1]
       (fresh (Some silent) ())"

definition two_calls_in_flight :: "unit state" where
  "two_calls_in_flight =
     run [Post 0 ''batch-0'' (json_post [request_msg (IdStr ''1'') ''a'']),
          Post 1 ''batch-1'' (json_post two_requests)]
       (fresh (Some silent) ())"




section \<open>Frame properties\<close>

lemma call_resolve_frame [simp]:
  "pendingRequests (call_resolve p a st) = pendingRequests st"
  "onmessage (call_resolve p a st) = onmessage st"
  "onerror (call_resolve p a st) = onerror st"
  "handler (call_resolve p a st) = handler st"
  "arrays (call_resolve p a st) = arrays st"
  "awaiting (call_resolve p a st) = awaiting st"
  "timers (call_resolve p a st) = timers st"
  "trace (call_resolve p a st) = trace st"
  "sent (call_resolve p a st) = sent st"
  by (simp_all add: call_resolve_def)

lemma send_loop_frame [simp]:
  "pendingRequests (send_loop es i m st) = pendingRequests st"
  "onmessage (send_loop es i m st) = onmessage st"
  "onerror (send_loop es i m st) = onerror st"
  "handler (send_loop es i m st) = handler st"
  "awaiting (send_loop es i m st) = awaiting st"
  "timers (send_loop es i m st) = timers st"
  "trace (send_loop es i m st) = trace st"
  "sent (send_loop es i m st) = sent st"
  by (induction es i m st rule: send_loop.induct; simp add: Let_def)+

lemma send_frame [simp]:
  "pendingRequests (send m st) = pendingRequests st"
  "onmessage (send m st) = onmessage st"
  "onerror (send m st) = onerror st"
  "handler (send m st) = handler st"
  "awaiting (send m st) = awaiting st"
  "timers (send m st) = timers st"
  "trace (send m st) = trace st"
  "sent (send m st) = sent st"
  by (simp_all add: send_def)

lemma fold_send_frame [simp]:
  "pendingRequests (fold send ms st) = pendingRequests st"
  "onmessage (fold send ms st) = onmessage st"
  "onerror (fold send ms st) = onerror st"
  "handler (fold send ms st) = handler st"
  "awaiting (fold send ms st) = awaiting st"
  "timers (fold send ms st) = timers st"
  "trace (fold send ms st) = trace st"
  "sent (fold send ms st) = sent st"
  by (induction ms arbitrary: st; simp)+

lemma call_onmessage_frame [simp]:
  "pendingRequests (snd (call_onmessage c m st)) = pendingRequests st"
  "onmessage (snd (call_onmessage c m st)) = onmessage st"
  "onerror (snd (call_onmessage c m st)) = onerror st"
  "awaiting (snd (call_onmessage c m st)) = awaiting st"
  "timers (snd (call_onmessage c m st)) = timers st"
  by (simp_all add: call_onmessage_def split: option.splits prod.splits)

lemma trace_call_onmessage:
  "trace (snd (call_onmessage c m st)) =
     trace st @ (case onmessage st of None \<Rightarrow> [] | Some f \<Rightarrow> [OnMessage c m])"
  by (simp add: call_onmessage_def split: option.splits prod.splits)

lemma forward_Cons:
  "forward c (m # ms) st =
     (if fst (call_onmessage c m st) = None then forward c ms (snd (call_onmessage c m st))
      else call_onmessage c m st)"
  by (cases "call_onmessage c m st") (auto split: option.splits)

declare forward.simps(2) [simp del]

text \<open>What every invocation of the handler keeps, the loop keeps.\<close>

lemma forward_keeps:
  assumes "P st" and "\<And>m st. P st \<Longrightarrow> P (snd (call_onmessage c m st))"
  shows "P (snd (forward c ms st))"
  using assms(1)
proof (induction ms arbitrary: st)
  case Nil
  then show ?case by simp
next
  case (Cons m ms)
  obtain e st1 where 1: "call_onmessage c m st = (e, st1)"
    by (cases "call_onmessage c m st")
  with assms(2) [OF Cons.prems, of m] have "P st1" by simp
  with Cons.IH 1 show ?case by (cases e) (simp_all add: forward_Cons)
qed

lemma forward_frame [simp]:
  "pendingRequests (snd (forward c ms st)) = pendingRequests st"
  "onmessage (snd (forward c ms st)) = onmessage st"
  "onerror (snd (forward c ms st)) = onerror st"
  "awaiting (snd (forward c ms st)) = awaiting st"
  "timers (snd (forward c ms st)) = timers st"
proof -
  show "pendingRequests (snd (forward c ms st)) = pendingRequests st"
    by (rule forward_keeps [where P = "\<lambda>s. pendingRequests s = pendingRequests st"]) simp_all
  show "onmessage (snd (forward c ms st)) = onmessage st"
    by (rule forward_keeps [where P = "\<lambda>s. onmessage s = onmessage st"]) simp_all
  show "onerror (snd (forward c ms st)) = onerror st"
    by (rule forward_keeps [where P = "\<lambda>s. onerror s = onerror st"]) simp_all
  show "awaiting (snd (forward c ms st)) = awaiting st"
    by (rule forward_keeps [where P = "\<lambda>s. awaiting s = awaiting st"]) simp_all
  show "timers (snd (forward c ms st)) = timers st"
    by (rule forward_keeps [where P = "\<lambda>s. timers s = timers st"]) simp_all
qed

lemma trace_forward:
  "\<exists>n \<le> length ms.
     trace (snd (forward c ms st)) =
       trace st @ (case onmessage st of None \<Rightarrow> [] | Some f \<Rightarrow> map (OnMessage c) (take n ms))
     \<and> (fst (forward c ms st) = None \<longrightarrow> n = length ms)"
proof (induction ms arbitrary: st)
  case Nil
  then show ?case by (simp split: option.splits)
next
  case (Cons m ms)
  let ?st1 = "snd (call_onmessage c m st)"
  show ?case
  proof (cases "fst (call_onmessage c m st)")
    case None
    from Cons.IH [of ?st1] obtain n where n: "n \<le> length ms"
      "trace (snd (forward c ms ?st1)) =
         trace ?st1 @ (case onmessage st of None \<Rightarrow> [] | Some f \<Rightarrow> map (OnMessage c) (take n ms))"
      "fst (forward c ms ?st1) = None \<longrightarrow> n = length ms"
      by auto
    show ?thesis
      by (rule exI [of _ "Suc n"])
         (use n None in \<open>auto simp: forward_Cons trace_call_onmessage split: option.splits\<close>)
  next
    case (Some err)
    show ?thesis
      by (rule exI [of _ "Suc 0"])
         (use Some in \<open>auto simp: forward_Cons trace_call_onmessage split: option.splits\<close>)
  qed
qed

lemma forward_append:
  "forward c (xs @ ys) st =
     (case forward c xs st of
        (None, st1) \<Rightarrow> forward c ys st1
      | (Some err, st1) \<Rightarrow> (Some err, st1))"
proof (induction xs arbitrary: st)
  case Nil
  then show ?case by simp
next
  case (Cons x xs)
  then show ?case
    by (cases "call_onmessage c x st") (auto simp: forward_Cons split: option.splits)
qed

lemma send_loop_unmatched:
  "\<forall>entry \<in> set es. i \<notin> set (requestIds (snd entry)) \<Longrightarrow> send_loop es i m st = st"
  by (induction es i m st rule: send_loop.induct) simp_all

lemma hasRequests_not_only: "hasRequests ms \<Longrightarrow> \<not> hasOnlyNotifications ms"
  by (auto simp: hasRequests_def hasOnlyNotifications_def list_ex_iff list_all_iff)

lemma handlePostRequest_decoded:
  assumes "\<not> not_acceptable req" "\<not> unsupported_media_type req" "decoded req = Inr messages"
  shows "handlePostRequest c b req st =
     (if hasOnlyNotifications messages then
        (case forward c messages (st\<lparr>trace := trace st @ [WriteHead c 202 [], End c NoBody]\<rparr>) of
           (None, st1) \<Rightarrow> st1
         | (Some err, st1) \<Rightarrow> catch_block c True err st1)
      else if hasRequests messages then
        (case forward c messages (register c b (requestIds_of messages) st) of
           (None, st2) \<Rightarrow> st2\<lparr>timers := (timers st)(c \<mapsto> 30000), awaiting := (awaiting st)(c \<mapsto> b)\<rparr>
         | (Some err, st2) \<Rightarrow> catch_block c False err st2)
      else st)"
proof -
  have "timers st2 = timers st \<and> awaiting st2 = awaiting st"
    if "forward c messages (register c b (requestIds_of messages) st) = (e, st2)" for e st2
    using forward_frame(4,5) [of c messages "register c b (requestIds_of messages) st",
        unfolded that snd_conv]
    by (simp add: register_def)
  then show ?thesis
    using assms by (auto simp: handlePostRequest_def split: prod.splits option.splits)
qed

lemma catch_block_frame [simp]:
  "pendingRequests (catch_block c w err st) = pendingRequests st"
  "onmessage (catch_block c w err st) = onmessage st"
  "arrays (catch_block c w err st) = arrays st"
  "race (catch_block c w err st) = race st"
  "awaiting (catch_block c w err st) = awaiting st"
  "timers (catch_block c w err st) = timers st"
  "sent (catch_block c w err st) = sent st"
  by (simp_all add: catch_block_def respond_error_def Let_def)

section \<open>Invariants of a waiting call\<close>

lemma batch_inv_send_loop:
  assumes "list_all (\<lambda>entry.
         (resolve (snd entry) = c \<longrightarrow>
            responseMessages (snd entry) = c \<and> length (requestIds (snd entry)) = n)
         \<and> (responseMessages (snd entry) = c \<longrightarrow>
            resolve (snd entry) = c \<and> length (requestIds (snd entry)) = n)) es"
    and "race st c = (if n \<le> length (arrays st c) then Collected c else Unsettled)"
  shows "race (send_loop es i m st) c =
     (if n \<le> length (arrays (send_loop es i m st) c) then Collected c else Unsettled)"
  using assms
proof (induction es i m st rule: send_loop.induct)
  case (1 messageId message st)
  then show ?case by simp
next
  case (2 batchId pr entries messageId message st)
  show ?case
  proof (cases "messageId \<in> set (requestIds pr)")
    case False
    with 2 show ?thesis by simp
  next
    case True
    show ?thesis
    proof (cases "responseMessages pr = c")
      case True
      with 2(2) have "resolve pr = c" "length (requestIds pr) = n" by auto
      with True \<open>messageId \<in> set (requestIds pr)\<close> 2(3) show ?thesis
        by (auto simp: Let_def call_resolve_def)
    next
      case False
      with 2(2) have "resolve pr \<noteq> c" by auto
      with False \<open>messageId \<in> set (requestIds pr)\<close> 2(3) show ?thesis
        by (auto simp: Let_def call_resolve_def)
    qed
  qed
qed

lemma batch_inv_send: "batch_inv c n st \<Longrightarrow> batch_inv c n (send m st)"
  using batch_inv_send_loop [of c n "pendingRequests st" st "messageId m" m]
  by (auto simp: batch_inv_def send_def)

lemma batch_inv_fold_send: "batch_inv c n st \<Longrightarrow> batch_inv c n (fold send ms st)"
  by (induction ms arbitrary: st) (simp_all add: batch_inv_send)

lemma batch_inv_mono:
  "batch_inv c n st \<Longrightarrow> set (pendingRequests st') \<subseteq> set (pendingRequests st)
     \<Longrightarrow> race st' c = race st c \<Longrightarrow> arrays st' c = arrays st c \<Longrightarrow> batch_inv c n st'"
  unfolding batch_inv_def list_all_iff by (auto simp: subset_iff)

lemma batch_inv_call_onmessage:
  assumes "batch_inv c n st"
  shows "batch_inv c n (snd (call_onmessage c' m st))"
proof (cases "onmessage st")
  case None
  with assms show ?thesis by (simp add: call_onmessage_def)
next
  case (Some f)
  obtain outs exn h' where f: "f m (handler st) = (outs, exn, h')"
    by (cases "f m (handler st)")
  have "batch_inv c n (st\<lparr>trace := trace st @ [OnMessage c' m], handler := h',
      sent := sent st @ outs\<rparr>)"
    using assms by (rule batch_inv_mono) simp_all
  then show ?thesis
    by (simp add: call_onmessage_def Some f batch_inv_fold_send)
qed

lemma batch_inv_forward: "batch_inv c n st \<Longrightarrow> batch_inv c n (snd (forward c' ms st))"
  by (rule forward_keeps) (simp_all add: batch_inv_call_onmessage)

lemma set_update_subset: "set (AList.update k v al) \<subseteq> insert (k, v) (set al)"
  by (induction al) auto

lemma in_register:
  assumes "e \<in> set (pendingRequests (register c b ids st))"
  shows "e \<in> set (pendingRequests st)
       \<or> snd e = \<lparr>resolve = c, responseMessages = c, requestIds = ids\<rparr>"
  using assms set_update_subset [of b "\<lparr>resolve = c, responseMessages = c, requestIds = ids\<rparr>" "pendingRequests st"]
  by (auto simp: register_def)

lemma batch_inv_register:
  assumes "batch_inv c n st" "c' \<noteq> c"
  shows "batch_inv c n (register c' b ids st)"
proof -
  have "(resolve (snd entry) = c \<longrightarrow>
            responseMessages (snd entry) = c \<and> length (requestIds (snd entry)) = n)
         \<and> (responseMessages (snd entry) = c \<longrightarrow>
            resolve (snd entry) = c \<and> length (requestIds (snd entry)) = n)"
    if "entry \<in> set (pendingRequests (register c' b ids st))" for entry
    using in_register [OF that]
  proof
    assume "entry \<in> set (pendingRequests st)"
    with assms(1) show ?thesis by (simp add: batch_inv_def list_all_iff)
  next
    assume "snd entry = \<lparr>resolve = c', responseMessages = c', requestIds = ids\<rparr>"
    with assms(2) show ?thesis by simp
  qed
  moreover have "race (register c' b ids st) c = race st c"
    "arrays (register c' b ids st) c = arrays st c"
    using assms(2) by (simp_all add: register_def)
  ultimately show ?thesis
    using assms(1) by (simp add: batch_inv_def list_all_iff)
qed

lemma batch_inv_register_self:
  assumes "unused c st" "ids \<noteq> []"
  shows "batch_inv c (length ids) (register c b ids st)"
proof -
  have "(resolve (snd entry) = c \<longrightarrow>
            responseMessages (snd entry) = c \<and> length (requestIds (snd entry)) = length ids)
         \<and> (responseMessages (snd entry) = c \<longrightarrow>
            resolve (snd entry) = c \<and> length (requestIds (snd entry)) = length ids)"
    if "entry \<in> set (pendingRequests (register c b ids st))" for entry
    using in_register [OF that]
  proof
    assume "entry \<in> set (pendingRequests st)"
    with assms(1) show ?thesis by (simp add: unused_def list_all_iff)
  next
    assume "snd entry = \<lparr>resolve = c, responseMessages = c, requestIds = ids\<rparr>"
    then show ?thesis by simp
  qed
  moreover have "race (register c b ids st) c = Unsettled" "arrays (register c b ids st) c = []"
    by (simp_all add: register_def)
  ultimately show ?thesis
    using assms(2) by (simp add: batch_inv_def list_all_iff)
qed

lemma batch_inv_suspend:
  "batch_inv c n st \<Longrightarrow> batch_inv c n (st\<lparr>timers := x, awaiting := y\<rparr>)"
  by (erule batch_inv_mono) simp_all

lemma batch_inv_respond_error:
  "batch_inv c n st \<Longrightarrow> batch_inv c n (respond_error c' status code msg data st)"
  by (erule batch_inv_mono) (simp_all add: respond_error_def)

lemma batch_inv_catch_block:
  "batch_inv c n st \<Longrightarrow> batch_inv c n (catch_block c' w err st)"
  by (erule batch_inv_mono) simp_all

lemma batch_inv_after_forward:
  assumes "batch_inv c n st"
  shows "batch_inv c n
     (case forward c' ms st of
        (None, st2) \<Rightarrow> st2\<lparr>timers := x, awaiting := y\<rparr>
      | (Some err, st2) \<Rightarrow> catch_block c' w err st2)"
    and "batch_inv c n
     (case forward c' ms st of
        (None, st2) \<Rightarrow> st2
      | (Some err, st2) \<Rightarrow> catch_block c' w err st2)"
  using batch_inv_forward [OF assms, of c' ms]
  by (auto split: prod.splits option.splits intro: batch_inv_suspend batch_inv_catch_block)

lemma batch_inv_handlePostRequest:
  assumes "batch_inv c n st" "c' \<noteq> c"
  shows "batch_inv c n (handlePostRequest c' b req st)"
proof (cases "not_acceptable req \<or> unsupported_media_type req")
  case True
  with assms(1) show ?thesis
    by (auto simp: handlePostRequest_def batch_inv_respond_error)
next
  case False
  show ?thesis
  proof (cases "decoded req")
    case (Inl err)
    with False assms(1) show ?thesis
      by (simp add: handlePostRequest_def batch_inv_catch_block)
  next
    case (Inr messages)
    have "batch_inv c n (st\<lparr>trace := t\<rparr>)" for t
      using assms(1) by (rule batch_inv_mono) simp_all
    moreover have "batch_inv c n (register c' b ids st)" for ids
      using assms by (rule batch_inv_register)
    ultimately show ?thesis
      using False Inr assms(1)
      by (simp add: handlePostRequest_decoded batch_inv_after_forward)
  qed
qed

lemma batch_inv_timeout: "batch_inv c n st \<Longrightarrow> c' \<noteq> c \<Longrightarrow> batch_inv c n (timeout c' st)"
  by (erule batch_inv_mono) (simp_all add: timeout_def split: option.splits)

lemma batch_inv_resume: "batch_inv c n st \<Longrightarrow> c' \<noteq> c \<Longrightarrow> batch_inv c n (resume c' st)"
  by (erule batch_inv_mono)
     (auto simp: resume_def Let_def AList.delete_eq split: option.splits outcome.splits)

lemma batch_inv_sent [simp]: "batch_inv c n (st\<lparr>sent := x\<rparr>) = batch_inv c n st"
  by (simp add: batch_inv_def)

lemma batch_inv_step: "batch_inv c n st \<Longrightarrow> \<not> of_call c e \<Longrightarrow> batch_inv c n (step e st)"
  by (cases e) (simp_all add: batch_inv_handlePostRequest batch_inv_send batch_inv_timeout batch_inv_resume)

lemma batch_inv_run:
  "batch_inv c n st \<Longrightarrow> \<forall>e \<in> set evs. \<not> of_call c e \<Longrightarrow> batch_inv c n (run evs st)"
  unfolding run_def by (induction evs arbitrary: st) (simp_all add: batch_inv_step)

lemma settled_call_resolve: "race st c \<noteq> Unsettled \<Longrightarrow> race (call_resolve p a st) c = race st c"
  by (auto simp: call_resolve_def)













lemma resume_settled:
  assumes "awaiting st c = Some b" "race st c \<noteq> Unsettled"
  shows "resume c st =
     st\<lparr>pendingRequests := AList.delete b (pendingRequests st),
        awaiting := (awaiting st)(c := None),
        trace := trace st @
          [WriteHead c 200 [(''Content-Type'', ''application/json'')],
           End c (case race st c of
                    Collected a \<Rightarrow>
                      (if length (arrays st a) = 1 then Single (arrays st a ! 0)
                       else Batch (arrays st a))
                  | other \<Rightarrow> Batch [])]\<rparr>"
  using assms by (cases "race st c") (simp_all add: resume_def Let_def)

lemma includes_str_self: "includes_str s s"
  by (induction s) (simp_all add: includes_str_def)

lemma json_post_passes [simp]:
  "\<not> not_acceptable (json_post ms)" "\<not> unsupported_media_type (json_post ms)"
  "decoded (json_post ms) = Inr ms"
  by (simp_all add: not_acceptable_def unsupported_media_type_def json_post_def includes_str_self)

text \<open>The definitions that evaluating a concrete run unfolds.\<close>

lemmas eval_defs = run_def handlePostRequest_decoded hasRequests_def hasOnlyNotifications_def
  requestIds_of_def messageId_def js_String_def register_def forward_Cons call_onmessage_def
  catch_block_def respond_error_def silent_def answer_at_once_def throws_always_def
  answers_or_throws_def send_def call_resolve_def Let_def timeout_def resume_def fresh_def
  request_msg_def response_msg_def notification_msg_def two_requests_def same_id_twice_def
  answer1_def answer2_def unused_def new_batch_def answers_def

lemma requestIds_of_nonempty: "hasRequests ms \<Longrightarrow> requestIds_of ms \<noteq> []"
  by (auto simp: hasRequests_def requestIds_of_def list_ex_iff filter_empty_conv)

lemma batch_inv_request_bearing:
  assumes "\<not> not_acceptable req" "\<not> unsupported_media_type req"
    and "decoded req = Inr messages" "hasRequests messages" "unused c st"
  shows "batch_inv c (length (requestIds_of messages)) (handlePostRequest c b req st)"
proof -
  have "batch_inv c (length (requestIds_of messages)) (register c b (requestIds_of messages) st)"
    using assms(4,5) by (intro batch_inv_register_self requestIds_of_nonempty)
  then show ?thesis
    using assms(1-4) hasRequests_not_only [OF assms(4)]
    by (simp add: handlePostRequest_decoded batch_inv_after_forward)
qed

lemma send_loop_first_match:
  assumes "\<forall>entry \<in> set earlier. i \<notin> set (requestIds (snd entry))"
    and "i \<in> set (requestIds pr)"
  shows "send_loop (earlier @ (batchId, pr) # later) i m st =
     (let st1 = st\<lparr>arrays := (arrays st)(responseMessages pr := arrays st (responseMessages pr) @ [m])\<rparr>
      in if length (arrays st (responseMessages pr)) + 1 = length (requestIds pr)
         then call_resolve (resolve pr) (responseMessages pr) st1 else st1)"
  using assms
proof (induction earlier)
  case Nil
  then show ?case by (simp add: Let_def fun_upd_def)
next
  case (Cons e earlier)
  then show ?case by (cases e) simp
qed

section \<open>What send delivers to a waiting call\<close>





lemma answers_Nil [simp]: "answers ids [] = []"
  by (simp add: answers_def)


















section \<open>Messages that send ignores\<close>

text \<open>
  Claim C5. When the message given to \<open>send\<close> has no id, or has neither a result nor an
  error, or its identifier is in the list of no registered entry, \<open>send\<close> returns
  the state it was given: the registry, every array of collected responses and every
  promise are unchanged. (\<open>send\<close> has no path that throws.)
\<close>

theorem send_ignores_unmatched:
  assumes "msg_id message = None
     \<or> (result message = None \<and> error message = None)
     \<or> (\<forall>entry \<in> set (pendingRequests st). messageId message \<notin> set (requestIds (snd entry)))"
  shows "send message st = st"
  using assms by (auto simp: send_def send_loop_unmatched)

theorem send_ignores_unmatched_witness:
  "send (notification_msg ''progress'')
     (handlePostRequest 0 ''batch-0'' (json_post [request_msg (IdStr ''1'') ''ping''])
        (fresh None ()))
   = handlePostRequest 0 ''batch-0'' (json_post [request_msg (IdStr ''1'') ''ping''])
        (fresh None ())
   \<and> send (response_msg (IdStr ''7'') JNull)
     (handlePostRequest 0 ''batch-0'' (json_post [request_msg (IdStr ''1'') ''ping''])
        (fresh None ()))
   = handlePostRequest 0 ''batch-0'' (json_post [request_msg (IdStr ''1'') ''ping''])
        (fresh None ())"
proof -
  let ?st = "handlePostRequest 0 ''batch-0'' (json_post [request_msg (IdStr ''1'') ''ping''])
        (fresh None ())"
  have "msg_id (notification_msg ''progress'') = None"
    by (simp add: notification_msg_def)
  then have 1: "send (notification_msg ''progress'') ?st = ?st"
    using send_ignores_unmatched [of "notification_msg ''progress''" ?st] by simp
  have "pendingRequests ?st =
      [(''batch-0'', \<lparr>resolve = 0, responseMessages = 0, requestIds = [''1'']\<rparr>)]"
    by (simp add: eval_defs)
  then have "\<forall>entry \<in> set (pendingRequests ?st).
      messageId (response_msg (IdStr ''7'') JNull) \<notin> set (requestIds (snd entry))"
    by (simp add: messageId_def response_msg_def js_String_def)
  then have 2: "send (response_msg (IdStr ''7'') JNull) ?st = ?st"
    using send_ignores_unmatched [of "response_msg (IdStr ''7'') JNull" ?st] by simp
  from 1 2 show ?thesis by simp
qed

section \<open>Notification-only calls\<close>

text \<open>
  Claim C3. A POST that passes the header guards and whose decoded body consists of
  Notifications only (every message has a method and no id) is answered with status 202
  and no body; both are written before the first message is passed to \<open>onmessage\<close>, and
  the messages are then passed on in order (when a handler is installed). When the
  handler returns from every message, that is all, as the first part says. In general
  (second part) the messages of the body are passed on in order until the handler
  throws, and when it throws nothing more is written: the head is written already, so
  the \<open>catch\<close> block ends with the rejection. In either case the registry is what it
  was, and no call is left suspended.
\<close>

theorem notifications_acknowledged_first:
  assumes "\<not> not_acceptable req" and "\<not> unsupported_media_type req"
    and "decoded req = Inr messages"
    and "\<forall>msg \<in> set messages. msg_method msg \<noteq> None \<and> msg_id msg = None"
  shows "(fst (forward c messages (st\<lparr>trace := trace st @ [WriteHead c 202 [], End c NoBody]\<rparr>))
            = None \<longrightarrow>
          trace (handlePostRequest c requestBatchId req st) =
            trace st @ [WriteHead c 202 [], End c NoBody]
              @ (case onmessage st of None \<Rightarrow> [] | Some f \<Rightarrow> map (OnMessage c) messages))
       \<and> (\<exists>n \<le> length messages.
            trace (handlePostRequest c requestBatchId req st) =
              trace st @ [WriteHead c 202 [], End c NoBody]
                @ (case onmessage st of
                     None \<Rightarrow> [] | Some f \<Rightarrow> map (OnMessage c) (take n messages))
                @ (case fst (forward c messages
                         (st\<lparr>trace := trace st @ [WriteHead c 202 [], End c NoBody]\<rparr>)) of
                     None \<Rightarrow> [] | Some err \<Rightarrow> [Rejects c ''ERR_HTTP_HEADERS_SENT'']))
       \<and> pendingRequests (handlePostRequest c requestBatchId req st) = pendingRequests st
       \<and> awaiting (handlePostRequest c requestBatchId req st) = awaiting st"
proof -
  let ?st1 = "st\<lparr>trace := trace st @ [WriteHead c 202 [], End c NoBody]\<rparr>"
  from assms(4) have "hasOnlyNotifications messages"
    by (simp add: hasOnlyNotifications_def list_all_iff)
  with assms(1-3) have R: "handlePostRequest c requestBatchId req st =
      (case forward c messages ?st1 of
         (None, st2) \<Rightarrow> st2 | (Some err, st2) \<Rightarrow> catch_block c True err st2)"
    by (simp add: handlePostRequest_decoded)
  obtain e st2 where f: "forward c messages ?st1 = (e, st2)"
    by (cases "forward c messages ?st1")
  from trace_forward [of messages c ?st1] f obtain n where n: "n \<le> length messages"
    "trace st2 = trace st @ [WriteHead c 202 [], End c NoBody]
       @ (case onmessage st of None \<Rightarrow> [] | Some f \<Rightarrow> map (OnMessage c) (take n messages))"
    "e = None \<longrightarrow> n = length messages"
    by auto
  have frame: "pendingRequests st2 = pendingRequests st" "awaiting st2 = awaiting st"
    using forward_frame(1,4) [of c messages ?st1] f by simp_all
  show ?thesis
  proof (cases e)
    case None
    with n have "n = length messages"
      by simp
    with n(2) have full: "trace st2 = trace st @ [WriteHead c 202 [], End c NoBody]
       @ (case onmessage st of None \<Rightarrow> [] | Some f \<Rightarrow> map (OnMessage c) messages)"
      by (simp split: option.splits)
    have "\<exists>n \<le> length messages. trace st2 = trace st @ [WriteHead c 202 [], End c NoBody]
       @ (case onmessage st of None \<Rightarrow> [] | Some f \<Rightarrow> map (OnMessage c) (take n messages)) @ []"
      using n(1,2) by auto
    with None R f full frame show ?thesis
      by simp
  next
    case (Some err)
    have "\<exists>n \<le> length messages.
       trace st2 @ [Rejects c ''ERR_HTTP_HEADERS_SENT''] = trace st @ [WriteHead c 202 [], End c NoBody]
       @ (case onmessage st of None \<Rightarrow> [] | Some f \<Rightarrow> map (OnMessage c) (take n messages))
       @ [Rejects c ''ERR_HTTP_HEADERS_SENT'']"
      using n(1,2) by auto
    with Some R f frame show ?thesis
      by (simp add: catch_block_def)
  qed
qed

theorem notifications_acknowledged_first_witness:
  "trace (handlePostRequest 0 ''batch-0'' (json_post [notification_msg ''notify''])
            (fresh (Some silent) ()))
     = [WriteHead 0 202 [], End 0 NoBody, OnMessage 0 (notification_msg ''notify'')]
   \<and> pendingRequests (handlePostRequest 0 ''batch-0'' (json_post [notification_msg ''notify''])
            (fresh (Some silent) ())) = []"
proof -
  have "fst (forward 0 [notification_msg ''notify'']
      ((fresh (Some silent) ())\<lparr>trace := trace (fresh (Some silent) ())
         @ [WriteHead 0 202 [], End 0 NoBody]\<rparr>)) = None"
    by (simp add: eval_defs)
  with notifications_acknowledged_first
    [of "json_post [notification_msg ''notify'']" "[notification_msg ''notify'']"
        0 "fresh (Some silent) ()" "''batch-0''"]
  show ?thesis
    by (simp add: notification_msg_def fresh_def)
qed

section \<open>Bodies that are neither notification-only nor request-bearing\<close>

text \<open>
  Claim C9. A POST that passes the header guards and whose decoded body has at least one
  message, no Request, and is not notification-only leaves everything as it was:
  \<open>handlePostRequest\<close> writes no status and no body, passes nothing to \<open>onmessage\<close>, and
  registers nothing.
\<close>

theorem unclassified_body_is_dropped:
  assumes "\<not> not_acceptable req" and "\<not> unsupported_media_type req"
    and "decoded req = Inr messages"
    and "messages \<noteq> []" and "\<not> hasRequests messages" and "\<not> hasOnlyNotifications messages"
  shows "handlePostRequest c requestBatchId req st = st"
  using assms by (simp add: handlePostRequest_decoded)

theorem unclassified_body_is_dropped_witness:
  "handlePostRequest 0 ''batch-0''
     (json_post [notification_msg ''note'', response_msg (IdStr ''1'') JNull])
     (fresh (Some silent) ())
   = fresh (Some silent) ()"
  using unclassified_body_is_dropped
    [of "json_post [notification_msg ''note'', response_msg (IdStr ''1'') JNull]"
        "[notification_msg ''note'', response_msg (IdStr ''1'') JNull]" 0 "''batch-0''"
        "fresh (Some silent) ()"]
  by (simp add: hasRequests_def hasOnlyNotifications_def notification_msg_def response_msg_def)

section \<open>Registration comes before forwarding\<close>

text \<open>
  Claim C7. In a request-bearing call the entry is set in the registry, with its
  \<open>resolve\<close> callback, its empty array and its list of identifiers, before the first
  message is passed to \<open>onmessage\<close>: registering adds nothing to the trace, the new
  array is empty and the new promise unsettled, and whatever message \<open>msg\<close> of the
  body the handler is invoked on, it is invoked in a state in which the registry
  maps the batch identifier to the entry of the call, so what the handler sends
  is matched against a registry that has the entry. The call is the registration,
  then the loop over the messages before \<open>msg\<close>, the invocation on \<open>msg\<close> and the loop
  over the rest, each only if nothing was thrown before, then the \<open>await\<close> or, after an
  exception, the \<open>catch\<close> block; when nothing is thrown it is the composition of the
  last part.
\<close>

theorem registered_before_forwarding:
  assumes "\<not> not_acceptable req" and "\<not> unsupported_media_type req"
    and "decoded req = Inr messages" and "hasRequests messages"
    and "messages = before @ msg # rest"
  shows "trace (register c requestBatchId (requestIds_of messages) st) = trace st
       \<and> arrays (register c requestBatchId (requestIds_of messages) st) c = []
       \<and> race (register c requestBatchId (requestIds_of messages) st) c = Unsettled
       \<and> map_of (pendingRequests
            (snd (forward c before (register c requestBatchId (requestIds_of messages) st))))
            requestBatchId
          = Some \<lparr>resolve = c, responseMessages = c, requestIds = requestIds_of messages\<rparr>
       \<and> forward c messages (register c requestBatchId (requestIds_of messages) st) =
           (case forward c before (register c requestBatchId (requestIds_of messages) st) of
              (Some err, st1) \<Rightarrow> (Some err, st1)
            | (None, st1) \<Rightarrow>
                (case call_onmessage c msg st1 of
                   (Some err, st2) \<Rightarrow> (Some err, st2)
                 | (None, st2) \<Rightarrow> forward c rest st2))
       \<and> handlePostRequest c requestBatchId req st =
           (case forward c messages (register c requestBatchId (requestIds_of messages) st) of
              (None, st2) \<Rightarrow>
                st2\<lparr>timers := (timers st)(c \<mapsto> 30000),
                    awaiting := (awaiting st)(c \<mapsto> requestBatchId)\<rparr>
            | (Some err, st2) \<Rightarrow> catch_block c False err st2)
       \<and> (fst (forward c messages (register c requestBatchId (requestIds_of messages) st)) = None
            \<longrightarrow>
          handlePostRequest c requestBatchId req st =
           (snd (forward c rest (snd (call_onmessage c msg
              (snd (forward c before
                 (register c requestBatchId (requestIds_of messages) st)))))))
             \<lparr>timers := (timers st)(c \<mapsto> 30000),
              awaiting := (awaiting st)(c \<mapsto> requestBatchId)\<rparr>)"
proof -
  let ?reg = "register c requestBatchId (requestIds_of messages) st"
  have "\<not> hasOnlyNotifications messages"
    using assms(4) by (rule hasRequests_not_only)
  then have R: "handlePostRequest c requestBatchId req st =
      (case forward c messages ?reg of
         (None, st2) \<Rightarrow>
           st2\<lparr>timers := (timers st)(c \<mapsto> 30000), awaiting := (awaiting st)(c \<mapsto> requestBatchId)\<rparr>
       | (Some err, st2) \<Rightarrow> catch_block c False err st2)"
    using assms(1-4) by (simp add: handlePostRequest_decoded)
  have F: "forward c messages ?reg =
           (case forward c before ?reg of
              (Some err, st1) \<Rightarrow> (Some err, st1)
            | (None, st1) \<Rightarrow>
                (case call_onmessage c msg st1 of
                   (Some err, st2) \<Rightarrow> (Some err, st2)
                 | (None, st2) \<Rightarrow> forward c rest st2))"
    unfolding assms(5) forward_append
    by (cases "forward c before ?reg")
       (auto simp: forward_Cons split: option.splits prod.splits)
  have M: "map_of (pendingRequests (snd (forward c before ?reg))) requestBatchId
          = Some \<lparr>resolve = c, responseMessages = c, requestIds = requestIds_of messages\<rparr>"
    by (simp add: register_def AList.update_conv')
  have N: "handlePostRequest c requestBatchId req st =
           (snd (forward c rest (snd (call_onmessage c msg (snd (forward c before ?reg))))))
             \<lparr>timers := (timers st)(c \<mapsto> 30000), awaiting := (awaiting st)(c \<mapsto> requestBatchId)\<rparr>"
    if "fst (forward c messages ?reg) = None"
    using that unfolding R F
    by (auto split: prod.splits option.splits)
  from R F M N show ?thesis
    by (simp add: register_def)
qed

theorem registered_before_forwarding_witness:
  "hasRequests [notification_msg ''note'', request_msg (IdStr ''1'') ''ping'']
   \<and> map_of (pendingRequests
        (snd (forward 0 [notification_msg ''note'']
           (register 0 ''batch-0''
              (requestIds_of [notification_msg ''note'', request_msg (IdStr ''1'') ''ping''])
              (fresh (Some answer_at_once) ()))))) ''batch-0''
     = Some \<lparr>resolve = 0, responseMessages = 0,
          requestIds = requestIds_of [notification_msg ''note'', request_msg (IdStr ''1'') ''ping'']\<rparr>
   \<and> requestIds_of [notification_msg ''note'', request_msg (IdStr ''1'') ''ping''] = [''1'']
   \<and> fst (forward 0 [notification_msg ''note'', request_msg (IdStr ''1'') ''ping'']
        (register 0 ''batch-0''
           (requestIds_of [notification_msg ''note'', request_msg (IdStr ''1'') ''ping''])
           (fresh (Some answer_at_once) ()))) = None
   \<and> timers (handlePostRequest 0 ''batch-0''
        (json_post [notification_msg ''note'', request_msg (IdStr ''1'') ''ping''])
        (fresh (Some answer_at_once) ())) 0 = Some 30000"
proof -
  let ?msgs = "[notification_msg ''note'', request_msg (IdStr ''1'') ''ping'']"
  let ?st = "fresh (Some answer_at_once) ()"
  have h: "hasRequests ?msgs"
    by (simp add: eval_defs)
  have split: "?msgs = [notification_msg ''note''] @ request_msg (IdStr ''1'') ''ping'' # []"
    by simp
  have ids: "requestIds_of ?msgs = [''1'']"
    by (simp add: eval_defs)
  note inst = registered_before_forwarding
      [OF json_post_passes(1) json_post_passes(2) json_post_passes(3) h split,
       of 0 "''batch-0''" "fresh (Some answer_at_once) ()"]
  from inst have "map_of (pendingRequests
        (snd (forward 0 [notification_msg ''note'']
           (register 0 ''batch-0'' (requestIds_of ?msgs) (fresh (Some answer_at_once) ()))))) ''batch-0''
     = Some \<lparr>resolve = 0, responseMessages = 0, requestIds = requestIds_of ?msgs\<rparr>"
    by (elim conjE)
  moreover have nt: "fst (forward 0 ?msgs (register 0 ''batch-0'' (requestIds_of ?msgs) ?st)) = None"
    by (simp add: eval_defs)
  moreover from inst nt have "handlePostRequest 0 ''batch-0'' (json_post ?msgs) ?st =
      (snd (forward 0 [] (snd (call_onmessage 0 (request_msg (IdStr ''1'') ''ping'')
         (snd (forward 0 [notification_msg ''note'']
            (register 0 ''batch-0'' (requestIds_of ?msgs) ?st)))))))
        \<lparr>timers := (timers ?st)(0 \<mapsto> 30000), awaiting := (awaiting ?st)(0 \<mapsto> ''batch-0'')\<rparr>"
    by blast
  then have "timers (handlePostRequest 0 ''batch-0'' (json_post ?msgs) ?st) 0 = Some 30000"
    by simp
  ultimately show ?thesis
    using h ids by (intro conjI)
qed

section \<open>Calls whose timer fires first\<close>




section \<open>Calls whose batch is completed\<close>




section \<open>One expected slot for every Request\<close>

text \<open>
  Claim C2, amended. In a request-bearing call the registry maps the batch identifier
  to an entry whose list of expected identifiers has one element for every Request of
  the body, in order, duplicates kept. As long as only events of other calls and
  \<open>send\<close> calls happen, the race of a new call is won by its batch exactly when the
  number of collected responses has reached the number of Requests of the body.
\<close>

theorem one_slot_per_request:
  assumes "\<not> not_acceptable req" and "\<not> unsupported_media_type req"
    and "decoded req = Inr messages" and "hasRequests messages"
    and "unused c st"
    and "\<forall>e \<in> set evs. \<not> of_call c e"
  shows "map_of (pendingRequests (handlePostRequest c requestBatchId req st)) requestBatchId
           = Some \<lparr>resolve = c, responseMessages = c,
                requestIds = map messageId
                  (filter (\<lambda>msg. msg_method msg \<noteq> None \<and> msg_id msg \<noteq> None) messages)\<rparr>
       \<and> (race (run evs (handlePostRequest c requestBatchId req st)) c = Collected c)
           = (length (filter (\<lambda>msg. msg_method msg \<noteq> None \<and> msg_id msg \<noteq> None) messages)
                \<le> length (arrays (run evs (handlePostRequest c requestBatchId req st)) c))"
proof -
  have "batch_inv c (length (requestIds_of messages))
      (run evs (handlePostRequest c requestBatchId req st))"
    using assms by (intro batch_inv_run batch_inv_request_bearing)
  then have "(race (run evs (handlePostRequest c requestBatchId req st)) c = Collected c)
           = (length (filter (\<lambda>msg. msg_method msg \<noteq> None \<and> msg_id msg \<noteq> None) messages)
                \<le> length (arrays (run evs (handlePostRequest c requestBatchId req st)) c))"
    by (simp add: batch_inv_def requestIds_of_def)
  moreover have "map_of (pendingRequests (handlePostRequest c requestBatchId req st)) requestBatchId
           = Some \<lparr>resolve = c, responseMessages = c,
                requestIds = map messageId
                  (filter (\<lambda>msg. msg_method msg \<noteq> None \<and> msg_id msg \<noteq> None) messages)\<rparr>"
  proof -
    let ?reg = "register c requestBatchId (requestIds_of messages) st"
    have "pendingRequests (handlePostRequest c requestBatchId req st) = pendingRequests ?reg"
      using assms(1-4) hasRequests_not_only [OF assms(4)]
        forward_frame(1) [of c messages ?reg]
      by (cases "forward c messages ?reg"; cases "fst (forward c messages ?reg)")
         (simp_all add: handlePostRequest_decoded)
    then show ?thesis
      by (simp add: register_def AList.update_conv' requestIds_of_def)
  qed
  ultimately show ?thesis by simp
qed

theorem one_slot_per_request_witness:
  "hasRequests same_id_twice
   \<and> map_of (pendingRequests (handlePostRequest 0 ''batch-0'' (json_post same_id_twice)
        (fresh (Some silent) ()))) ''batch-0''
       = Some \<lparr>resolve = 0, responseMessages = 0, requestIds = [''1'', ''1'']\<rparr>
   \<and> race (run [Send answer1] (handlePostRequest 0 ''batch-0'' (json_post same_id_twice)
        (fresh (Some silent) ()))) 0 \<noteq> Collected 0
   \<and> race (run [Send answer1, Send answer1] (handlePostRequest 0 ''batch-0''
        (json_post same_id_twice) (fresh (Some silent) ()))) 0 = Collected 0"
proof -
  let ?st1 = "handlePostRequest 0 ''batch-0'' (json_post same_id_twice) (fresh (Some silent) ())"
  have h: "hasRequests same_id_twice"
    by (simp add: eval_defs)
  have u: "unused 0 (fresh (Some silent) ())"
    by (simp add: eval_defs)
  have e1: "\<forall>e \<in> set [Send answer1]. \<not> of_call 0 e"
    and e2: "\<forall>e \<in> set [Send answer1, Send answer1]. \<not> of_call 0 e"
    by simp_all
  have n: "filter (\<lambda>msg. msg_method msg \<noteq> None \<and> msg_id msg \<noteq> None) same_id_twice = same_id_twice"
    by (simp add: eval_defs)
  have c1: "length (arrays (run [Send answer1] ?st1) 0) = 1"
    and c2: "length (arrays (run [Send answer1, Send answer1] ?st1) 0) = 2"
    by (simp_all add: eval_defs)
  have m: "map messageId same_id_twice = [''1'', ''1'']"
    by (simp add: eval_defs)
  have l: "length same_id_twice = 2"
    by (simp add: same_id_twice_def)
  note inst1 = one_slot_per_request
    [OF json_post_passes(1) json_post_passes(2) json_post_passes(3) h u e1,
     of "''batch-0''", unfolded n m l c1]
  note inst2 = one_slot_per_request
    [OF json_post_passes(1) json_post_passes(2) json_post_passes(3) h u e2,
     of "''batch-0''", unfolded n m l c2]
  from inst1 have "map_of (pendingRequests ?st1) ''batch-0''
       = Some \<lparr>resolve = 0, responseMessages = 0, requestIds = [''1'', ''1'']\<rparr>"
    by (rule conjunct1)
  moreover from inst1 have "race (run [Send answer1] ?st1) 0 \<noteq> Collected 0"
    by simp
  moreover from inst2 have "race (run [Send answer1, Send answer1] ?st1) 0 = Collected 0"
    by simp
  ultimately show ?thesis using h by (intro conjI)
qed

text \<open>
  The claim as the specification has it says that an identifier borne by two Requests
  takes one slot and that one response for every distinct identifier completes the
  batch. For two Requests with the identifier \<open>1\<close> the list has two elements, and after
  one response with that identifier the race is unsettled.
\<close>

theorem one_slot_per_request_counterexample:
  "map_of (pendingRequests (handlePostRequest 0 ''batch-0'' (json_post same_id_twice)
       (fresh (Some silent) ()))) ''batch-0''
     = Some \<lparr>resolve = 0, responseMessages = 0, requestIds = [''1'', ''1'']\<rparr>
   \<and> \<not> distinct (requestIds_of same_id_twice)
   \<and> remdups (requestIds_of same_id_twice) = [''1'']
   \<and> map messageId (arrays same_id_answered_once 0) = [''1'']
   \<and> race same_id_answered_once 0 = Unsettled"
  by (simp add: same_id_answered_once_def eval_defs)

section \<open>The body of the response\<close>

text \<open>
  Claim C6, amended. When the race of a suspended call is settled, its continuation
  writes status 200 and this body: if the batch won the race, the single response when
  the array holds exactly one, the array otherwise; if the timer won, the empty array,
  whatever the array holds. The array is in arrival order: \<open>send\<close> leaves an array as it
  is or puts its message at the end.
\<close>

theorem completed_body:
  assumes "awaiting st c = Some requestBatchId" and "race st c \<noteq> Unsettled"
  shows "trace (resume c st) =
           trace st @
             [WriteHead c 200 [(''Content-Type'', ''application/json'')],
              End c (case race st c of
                       Collected a \<Rightarrow>
                         (if length (arrays st a) = 1 then Single (arrays st a ! 0)
                          else Batch (arrays st a))
                     | other \<Rightarrow> Batch [])]
       \<and> (arrays (send message st) k = arrays st k
          \<or> arrays (send message st) k = arrays st k @ [message])"
proof -
  have "arrays (send_loop es i m st) k = arrays st k
      \<or> arrays (send_loop es i m st) k = arrays st k @ [m]" for es i m
    by (induction es i m st rule: send_loop.induct) (auto simp: Let_def)
  then have "arrays (send message st) k = arrays st k
      \<or> arrays (send message st) k = arrays st k @ [message]"
    by (simp add: send_def)
  with assms show ?thesis
    by (simp add: resume_settled)
qed

theorem completed_body_witness:
  "awaiting answered_out_of_order 0 = Some ''batch-0''
   \<and> race answered_out_of_order 0 = Collected 0
   \<and> arrays answered_out_of_order 0 = [answer2, answer1]
   \<and> trace (resume 0 answered_out_of_order) =
       trace answered_out_of_order @
         [WriteHead 0 200 [(''Content-Type'', ''application/json'')],
          End 0 (Batch [answer2, answer1])]"
proof -
  have a: "awaiting answered_out_of_order 0 = Some ''batch-0''"
    by (simp add: answered_out_of_order_def eval_defs)
  have r: "race answered_out_of_order 0 = Collected 0"
    by (simp add: answered_out_of_order_def eval_defs)
  have c: "arrays answered_out_of_order 0 = [answer2, answer1]"
    by (simp add: answered_out_of_order_def eval_defs)
  have "race answered_out_of_order 0 \<noteq> Unsettled"
    by (simp add: r)
  from completed_body [OF a this, of answer1 0]
  have "trace (resume 0 answered_out_of_order) =
       trace answered_out_of_order @
         [WriteHead 0 200 [(''Content-Type'', ''application/json'')],
          End 0 (Batch [answer2, answer1])]"
    by (simp add: r c)
  with a r c show ?thesis by (intro conjI)
qed

text \<open>
  The claim as the specification has it promises the collected responses for every
  call that is completed. A call for two Requests whose timer fires after one response
  has been collected is completed with the empty array, not with that response.
\<close>

theorem completed_body_counterexample:
  "awaiting one_of_two_then_timer 0 = Some ''batch-0''
   \<and> race one_of_two_then_timer 0 = TimedOut
   \<and> arrays one_of_two_then_timer 0 = [answer1]
   \<and> last (trace (resume 0 one_of_two_then_timer)) = End 0 (Batch [])
   \<and> last (trace (resume 0 one_of_two_then_timer)) \<noteq> End 0 (Single answer1)"
  by (simp add: one_of_two_then_timer_def eval_defs)

section \<open>Where send puts a response\<close>

text \<open>
  Claim C10, amended. \<open>send\<close> puts a Response at the end of the array of the first
  entry, in insertion order, whose list contains the identifier of the Response,
  whatever that array holds already (a response with the same identifier included),
  and touches no other array; it settles the race of that entry when the array has
  then as many elements as the list (and the race is still open). Hence a batch can be
  completed although one of its identifiers has no response: the call for the
  identifiers \<open>1\<close> and \<open>2\<close> that is sent the answer to \<open>1\<close> twice has won its race.
\<close>

theorem send_appends_to_first_match:
  assumes "msg_id message \<noteq> None" and "result message \<noteq> None \<or> error message \<noteq> None"
    and "pendingRequests st = earlier @ (batchId, pr) # later"
    and "\<forall>entry \<in> set earlier. messageId message \<notin> set (requestIds (snd entry))"
    and "messageId message \<in> set (requestIds pr)"
  shows "arrays (send message st) =
           (arrays st)(responseMessages pr := arrays st (responseMessages pr) @ [message])
       \<and> race (send message st) =
           (if length (arrays st (responseMessages pr)) + 1 = length (requestIds pr)
               \<and> race st (resolve pr) = Unsettled
            then (race st)(resolve pr := Collected (responseMessages pr)) else race st)
       \<and> race first_answered_twice 0 = Collected 0
       \<and> map messageId (arrays first_answered_twice 0) = [''1'', ''1'']
       \<and> map_of (pendingRequests first_answered_twice) ''batch-0''
           = Some \<lparr>resolve = 0, responseMessages = 0, requestIds = [''1'', ''2'']\<rparr>"
proof -
  have "send message st = send_loop (earlier @ (batchId, pr) # later) (messageId message) message st"
    using assms(1-3) by (auto simp: send_def)
  also have "\<dots> =
     (let st1 = st\<lparr>arrays := (arrays st)(responseMessages pr := arrays st (responseMessages pr) @ [message])\<rparr>
      in if length (arrays st (responseMessages pr)) + 1 = length (requestIds pr)
         then call_resolve (resolve pr) (responseMessages pr) st1 else st1)"
    using assms(4,5) by (rule send_loop_first_match)
  finally have "arrays (send message st) =
           (arrays st)(responseMessages pr := arrays st (responseMessages pr) @ [message])"
    and "race (send message st) =
           (if length (arrays st (responseMessages pr)) + 1 = length (requestIds pr)
               \<and> race st (resolve pr) = Unsettled
            then (race st)(resolve pr := Collected (responseMessages pr)) else race st)"
    by (simp_all add: Let_def call_resolve_def)
  moreover have "race first_answered_twice 0 = Collected 0"
    by (simp add: first_answered_twice_def eval_defs)
  moreover have "map messageId (arrays first_answered_twice 0) = [''1'', ''1'']"
    by (simp add: first_answered_twice_def eval_defs)
  moreover have "map_of (pendingRequests first_answered_twice) ''batch-0''
           = Some \<lparr>resolve = 0, responseMessages = 0, requestIds = [''1'', ''2'']\<rparr>"
    by (simp add: first_answered_twice_def eval_defs)
  ultimately show ?thesis by (intro conjI)
qed

theorem send_appends_to_first_match_witness:
  "pendingRequests two_calls_in_flight =
     [(''batch-0'', \<lparr>resolve = 0, responseMessages = 0, requestIds = [''1'']\<rparr>),
      (''batch-1'', \<lparr>resolve = 1, responseMessages = 1, requestIds = [''1'', ''2'']\<rparr>)]
   \<and> messageId answer2 = ''2''
   \<and> arrays (send answer2 two_calls_in_flight) 1 = [answer2]
   \<and> arrays (send answer2 two_calls_in_flight) 0 = []
   \<and> race (send answer2 two_calls_in_flight) 1 = Unsettled"
proof -
  have p: "pendingRequests two_calls_in_flight =
     [(''batch-0'', \<lparr>resolve = 0, responseMessages = 0, requestIds = [''1'']\<rparr>)]
     @ (''batch-1'', \<lparr>resolve = 1, responseMessages = 1, requestIds = [''1'', ''2'']\<rparr>) # []"
    by (simp add: two_calls_in_flight_def eval_defs)
  have i: "messageId answer2 = ''2''"
    by (simp add: eval_defs)
  have a: "arrays two_calls_in_flight = (\<lambda>a. [])" and r: "race two_calls_in_flight = (\<lambda>c. Unsettled)"
    by (simp_all add: two_calls_in_flight_def eval_defs fun_eq_iff)
  have "arrays (send answer2 two_calls_in_flight) =
           (arrays two_calls_in_flight)(1 := arrays two_calls_in_flight 1 @ [answer2])
       \<and> race (send answer2 two_calls_in_flight) =
           (if length (arrays two_calls_in_flight 1) + 1 = length [''1'', ''2'']
               \<and> race two_calls_in_flight 1 = Unsettled
            then (race two_calls_in_flight)(1 := Collected 1) else race two_calls_in_flight)"
    using send_appends_to_first_match [OF _ _ p, of answer2] i
    by (simp add: answer2_def response_msg_def)
  then have "arrays (send answer2 two_calls_in_flight) 1 = [answer2]"
    and "arrays (send answer2 two_calls_in_flight) 0 = []"
    and "race (send answer2 two_calls_in_flight) 1 = Unsettled"
    by (simp_all add: a r)
  with p i show ?thesis by simp
qed

text \<open>
  The claim as stated speaks of every registered batch whose list contains the
  identifier. With two calls in flight that both expect the identifier \<open>1\<close>, the answer
  goes to the entry registered first; the array of the second entry stays empty.
\<close>

theorem send_appends_to_first_match_counterexample:
  "map_of (pendingRequests two_calls_in_flight) ''batch-1''
     = Some \<lparr>resolve = 1, responseMessages = 1, requestIds = [''1'', ''2'']\<rparr>
   \<and> messageId answer1 = ''1''
   \<and> arrays two_calls_in_flight 1 = []
   \<and> arrays (send answer1 two_calls_in_flight) 1 = []
   \<and> arrays (send answer1 two_calls_in_flight) 0 = [answer1]"
  by (simp add: two_calls_in_flight_def eval_defs)

section \<open>The lookup of a parameter\<close>

text \<open>
  The second file computes the lookup as the specification words it, for every command
  line, environment and name; the first file does so when the command line has at
  least one \<open>--\<close> argument.
\<close>

lemma getParamValue_001_spec: "getParamValue_001 argv env name = lookup_spec argv env name"
proof -
  have "getParamValue_001 argv env name = value_chain (getParams argv) env name"
    by (cases "getParams argv") (simp_all add: getParamValue_001_def Let_def)
  also have "\<dots> = lookup_spec argv env name"
    by (simp add: value_chain_def lookup_spec_def js_or_def truthy_def split: jsval.splits)
  finally show ?thesis .
qed

lemma getParamValue_000_spec:
  "getParams argv \<noteq> [] \<Longrightarrow> getParamValue_000 argv env name = lookup_spec argv env name"
  by (simp add: getParamValue_000_def Let_def value_chain_def lookup_spec_def js_or_def
      truthy_def split: jsval.splits)

text \<open>
  Claim C8. The lookup returns the first non-empty value among the CLI-style argument
  under the name, its upper-case and its lower-case form, then the environment variable
  under the same three forms, and the environment is consulted also when there is no
  CLI-style argument at all. On a command line without \<open>--\<close> arguments and an
  environment that has the name, the second file returns the value of the environment,
  as the specification says; the first file returns the empty string.
\<close>

theorem getParamValue_without_arguments:
  "getParams [''node'', ''server.js''] = []
   \<and> getParamValue_000 [''node'', ''server.js''] [(''API_KEY'', ''secret'')] ''API_KEY'' = Str []
   \<and> getParamValue_001 [''node'', ''server.js''] [(''API_KEY'', ''secret'')] ''API_KEY''
       = Str ''secret''
   \<and> lookup_spec [''node'', ''server.js''] [(''API_KEY'', ''secret'')] ''API_KEY'' = Str ''secret''"
  by (simp add: getParams_def getParamValue_000_def getParamValue_001_def lookup_spec_def
      value_chain_def get_arg_def get_env_def js_or_def truthy_def Let_def)

end

